theory Spec2Isabelle
  imports Complex_Main
begin

section \<open>Data model\<close>

text \<open>
  Sizes are JavaScript numbers. They are modelled as real numbers; NaN and the infinities
  are outside the model. The functions are first written with exact arithmetic; the
  section on doubles gives delta propagation again with every sum and difference rounded
  to the nearest IEEE double, as the source computes it. Where the source would read
  \<open>undefined\<close> from an array and carry on with NaN, the model stops with an error value.
\<close>

datatype error =
    TypeError       \<comment> \<open>a property of \<open>undefined\<close> is read (\<open>panelsArray[index]\<close> out of range)\<close>
  | RangeError      \<comment> \<open>\<open>toPrecision\<close> called with a precision outside 1..100\<close>
  | UndefinedSize   \<comment> \<open>a size is read out of range; the source goes on with NaN\<close>

text \<open>The hooks of a panel: only whether each one is set matters to the code.\<close>

record PanelCallbacks =
  onCollapse :: bool
  onResize :: bool

record PanelData =
  callbacksRef :: PanelCallbacks
  collapsible :: bool
  panelId :: string
  maxSize :: real
  minSize :: real
  order :: real

text \<open>A resize event is read only through its \<open>type\<close> field; \<open>None\<close> is \<open>null\<close>.\<close>

record ResizeEvent =
  eventType :: string

text \<open>
  A \<open>Map<string, PanelData>\<close> is the list of its entries in insertion order, which is
  the order \<open>values()\<close> yields; \<open>size\<close> is its length.
\<close>

type_synonym PanelMap = "(string \<times> PanelData) list"

text \<open>Array reads: \<open>xs[i]\<close> is \<open>undefined\<close> (here \<open>None\<close>) outside \<open>0..length-1\<close>.\<close>

definition elemAt :: "'a list \<Rightarrow> int \<Rightarrow> 'a option" where
  "elemAt xs i = (if 0 \<le> i \<and> i < int (length xs) then Some (xs ! nat i) else None)"

text \<open>\<open>Array.prototype.findIndex\<close>: the first index whose element satisfies the test, or -1.\<close>

fun findIndex :: "('a \<Rightarrow> bool) \<Rightarrow> 'a list \<Rightarrow> int" where
  "findIndex t [] = - 1"
| "findIndex t (x # xs) =
     (if t x then 0 else (let r = findIndex t xs in if r < 0 then - 1 else r + 1))"

section \<open>Number formatting and string comparison\<close>

text \<open>
  \<open>Number.prototype.toPrecision\<close> for finite numbers, following ECMA-262: the \<open>p\<close>
  significant digits \<open>n\<close> and the decimal exponent \<open>e\<close> with \<open>n * 10^(e-p+1)\<close> nearest
  to the number (the larger one on a tie), printed in fixed notation, or in exponential
  notation when \<open>e < -6\<close> or \<open>e \<ge> p\<close>.
\<close>

definition digitChar :: "nat \<Rightarrow> char" where
  "digitChar d = ''0123456789'' ! d"

fun digits :: "nat \<Rightarrow> nat \<Rightarrow> string" where
  "digits k n = (if k = 0 then [] else digits (k - 1) (n div 10) @ [digitChar (n mod 10)])"

fun decimal :: "nat \<Rightarrow> string" where
  "decimal n = (if n < 10 then [digitChar n] else decimal (n div 10) @ [digitChar (n mod 10)])"

declare digits.simps [simp del] decimal.simps [simp del]

function exponentUp :: "real \<Rightarrow> int" where
  "exponentUp x = (if x < 10 then 0 else exponentUp (x / 10) + 1)"
  by pat_completeness auto
termination
proof (relation "measure (\<lambda>x. nat \<lfloor>x\<rfloor>)")
  show "wf (measure (\<lambda>x. nat \<lfloor>x\<rfloor>))" by simp
next
  fix x :: real
  assume "\<not> x < 10"
  then have "\<lfloor>x / 10\<rfloor> < \<lfloor>x\<rfloor>" and "0 < \<lfloor>x\<rfloor>"
    by linarith+
  then show "(x / 10, x) \<in> measure (\<lambda>x. nat \<lfloor>x\<rfloor>)" by simp
qed

function exponentDown :: "real \<Rightarrow> int" where
  "exponentDown x = (if x \<le> 0 \<or> 1 \<le> x then 0 else exponentDown (x * 10) - 1)"
  by pat_completeness auto
termination
proof (relation "measure (\<lambda>x. nat \<lfloor>1 / x\<rfloor>)")
  show "wf (measure (\<lambda>x. nat \<lfloor>1 / x\<rfloor>))" by (rule wf_measure)
next
  fix x :: real
  assume "\<not> (x \<le> 0 \<or> 1 \<le> x)"
  then have "1 < 1 / x" by simp
  define y where "y = 1 / x"
  have y: "1 < y" using \<open>1 < 1 / x\<close> by (simp only: y_def)
  have pos: "0 < \<lfloor>y\<rfloor>" using y by linarith
  have "\<lfloor>y / 10\<rfloor> < \<lfloor>y\<rfloor>" using pos by linarith
  with pos have "nat \<lfloor>y / 10\<rfloor> < nat \<lfloor>y\<rfloor>" by linarith
  then have "nat \<lfloor>(1 / x) / 10\<rfloor> < nat \<lfloor>1 / x\<rfloor>" by (simp only: y_def)
  moreover have "1 / (x * 10) = (1 / x) / 10" by simp
  ultimately have "nat \<lfloor>1 / (x * 10)\<rfloor> < nat \<lfloor>1 / x\<rfloor>" by (simp only:)
  then show "(x * 10, x) \<in> measure (\<lambda>x. nat \<lfloor>1 / x\<rfloor>)" by (simp only: in_measure)
qed

declare exponentUp.simps [simp del] exponentDown.simps [simp del]

text \<open>The decimal exponent of a positive number: \<open>10^e \<le> x < 10^(e+1)\<close>.\<close>

definition exponent10 :: "real \<Rightarrow> int" where
  "exponent10 x = (if 1 \<le> x then exponentUp x else exponentDown x)"

definition scale10 :: "real \<Rightarrow> int \<Rightarrow> real" where
  "scale10 x k = (if 0 \<le> k then x * 10 ^ nat k else x / 10 ^ nat (- k))"

text \<open>The digits \<open>n\<close> and the exponent \<open>e\<close> of a positive number, rounded to \<open>p\<close> digits.\<close>

definition roundToPrecision :: "nat \<Rightarrow> real \<Rightarrow> nat \<times> int" where
  "roundToPrecision p x =
     (let e0 = exponent10 x;
          n0 = nat \<lfloor>scale10 x (int p - 1 - e0) + 1 / 2\<rfloor>
      in if n0 = 10 ^ p then (10 ^ (p - 1), e0 + 1) else (n0, e0))"

text \<open>The notation: exponential when \<open>e < -6\<close> or \<open>e \<ge> p\<close>, fixed otherwise.\<close>

definition formatPrecision :: "nat \<Rightarrow> nat \<Rightarrow> int \<Rightarrow> string" where
  "formatPrecision p n e =
     (let m = digits p n
      in if e < - 6 \<or> int p \<le> e then
           (if p \<noteq> 1 then take 1 m @ ''.'' @ drop 1 m else m)
           @ ''e'' @ (if 0 \<le> e then ''+'' else ''-'') @ decimal (nat \<bar>e\<bar>)
         else if e = int p - 1 then m
         else if 0 \<le> e then take (nat (e + 1)) m @ ''.'' @ drop (nat (e + 1)) m
         else ''0.'' @ replicate (nat (- (e + 1))) CHR ''0'' @ m)"

definition toPrecisionAbs :: "nat \<Rightarrow> real \<Rightarrow> string" where
  "toPrecisionAbs p x =
     (let (n, e) = (if x = 0 then (0, 0) else roundToPrecision p x)
      in formatPrecision p n e)"

definition toPrecision :: "nat \<Rightarrow> real \<Rightarrow> error + string" where
  "toPrecision p x =
     (if p < 1 \<or> 100 < p then Inl RangeError
      else Inr ((if x < 0 then ''-'' else []) @ toPrecisionAbs p \<bar>x\<bar>))"

text \<open>
  The relational operators on two strings compare them code unit by code unit; a proper
  prefix is smaller. \<open>a >= b\<close> is the negation of \<open>a < b\<close>.
\<close>

fun stringLess :: "string \<Rightarrow> string \<Rightarrow> bool" where
  "stringLess [] [] = False"
| "stringLess [] (y # ys) = True"
| "stringLess (x # xs) [] = False"
| "stringLess (x # xs) (y # ys) =
     (if (of_char x :: nat) < of_char y then True
      else if (of_char y :: nat) < of_char x then False
      else stringLess xs ys)"

definition stringGe :: "string \<Rightarrow> string \<Rightarrow> bool" where
  "stringGe a b = (\<not> stringLess a b)"

section \<open>Panel ordering\<close>

text \<open>\<open>Array.prototype.sort\<close> is stable, and so is \<open>sort_key\<close>.\<close>

definition panelsMapToSortedArray :: "PanelMap \<Rightarrow> PanelData list" where
  "panelsMapToSortedArray panels = sort_key order (map snd panels)"

section \<open>Constrained single-panel resize\<close>

definition isKeyboardEvent :: "ResizeEvent option \<Rightarrow> bool" where
  "isKeyboardEvent event =
     (case event of None \<Rightarrow> False | Some e \<Rightarrow> take 3 (eventType e) = ''key'')"

definition safeResizePanel :: "PanelData \<Rightarrow> real \<Rightarrow> real \<Rightarrow> ResizeEvent option \<Rightarrow> real" where
  "safeResizePanel panel delta prevSize event =
     (let nextSizeUnsafe = prevSize + delta;
          nextSize = min (maxSize panel) (max (minSize panel) nextSizeUnsafe)
      in if collapsible panel then
           (if prevSize > 0 then
              (if nextSizeUnsafe \<le> 0 then 0 else nextSize)
            else
              (if \<not> isKeyboardEvent event then
                 (if nextSizeUnsafe < minSize panel then 0 else nextSize)
               else nextSize))
         else nextSize)"

section \<open>Delta propagation\<close>

text \<open>
  The function returns either the array it was given (\<open>return prevSizes\<close>) or the copy
  it has built (\<open>return nextSizes\<close>); the constructor records which, since callers
  compare by reference.
\<close>

datatype sizesRef = PrevSizes | NextSizes "real list"

definition deref :: "real list \<Rightarrow> sizesRef \<Rightarrow> real list" where
  "deref prevSizes r = (case r of PrevSizes \<Rightarrow> prevSizes | NextSizes xs \<Rightarrow> xs)"

text \<open>The variables the shrink-side loop updates.\<close>

record walkState =
  wDeltaApplied :: real
  wNextSizes :: "real list"
  wSizeBeforeCollapse :: "string \<rightharpoonup> real"

text \<open>
  One pass through the body of the \<open>while (true)\<close> loop, up to the test of
  \<open>deltaApplied\<close>; the flag says whether that test leaves the loop.
\<close>

definition walkStep ::
  "nat \<Rightarrow> ResizeEvent option \<Rightarrow> PanelData list \<Rightarrow> real list \<Rightarrow> real \<Rightarrow> int \<Rightarrow> walkState
     \<Rightarrow> error + (bool \<times> walkState)" where
  "walkStep precision event panelsArray prevSizes delta index s =
     (case elemAt panelsArray index of
        None \<Rightarrow> Inl TypeError
      | Some panel \<Rightarrow>
          (case elemAt prevSizes index of
             None \<Rightarrow> Inl UndefinedSize
           | Some prevSize \<Rightarrow>
               (let nextSize = safeResizePanel panel (0 - \<bar>delta\<bar>) prevSize event in
                if prevSize \<noteq> nextSize then
                  (let s' = \<lparr>wDeltaApplied = wDeltaApplied s + (prevSize - nextSize),
                             wNextSizes = (wNextSizes s)[nat index := nextSize],
                             wSizeBeforeCollapse =
                               (if nextSize = 0 \<and> prevSize > 0
                                then (wSizeBeforeCollapse s)(panelId panel \<mapsto> prevSize)
                                else wSizeBeforeCollapse s)\<rparr>
                   in case toPrecision precision (wDeltaApplied s') of
                        Inl e \<Rightarrow> Inl e
                      | Inr a \<Rightarrow>
                          (case toPrecision precision delta of
                             Inl e \<Rightarrow> Inl e
                           | Inr b \<Rightarrow> Inr (stringGe a b, s')))
                else Inr (False, s))))"

function walk ::
  "nat \<Rightarrow> ResizeEvent option \<Rightarrow> PanelData list \<Rightarrow> real list \<Rightarrow> real \<Rightarrow> int \<Rightarrow> walkState
     \<Rightarrow> error + walkState" where
  "walk precision event panelsArray prevSizes delta index s =
     (case walkStep precision event panelsArray prevSizes delta index s of
        Inl e \<Rightarrow> Inl e
      | Inr (stop, s') \<Rightarrow>
          if stop then Inr s'
          else if delta < 0 then
            (if index - 1 < 0 then Inr s'
             else walk precision event panelsArray prevSizes delta (index - 1) s')
          else
            (if index + 1 \<ge> int (length panelsArray) then Inr s'
             else walk precision event panelsArray prevSizes delta (index + 1) s'))"
  by pat_completeness auto
termination
proof (relation "measure (\<lambda>(precision, event, panelsArray, prevSizes, delta, index, s).
        if delta < 0 then nat (index + 1) else nat (int (length panelsArray) - index))",
       goal_cases)
  case 1
  show ?case by (rule wf_measure)
next
  case (2 precision event panelsArray prevSizes delta index s x2 stop s')
  then show ?case by simp
next
  case (3 precision event panelsArray prevSizes delta index s x2 stop s')
  then show ?case by simp
qed

declare walk.simps [simp del]

text \<open>
  The block that bounds-checks the panel being expanded. \<open>None\<close> stands for its
  \<open>return prevSizes\<close>; otherwise it yields the reduced \<open>delta\<close> and the updated
  \<open>panelSizeBeforeCollapse\<close>.
\<close>

definition growPivot ::
  "ResizeEvent option \<Rightarrow> PanelData list \<Rightarrow> string \<Rightarrow> string \<Rightarrow> real \<Rightarrow> real list
     \<Rightarrow> (string \<rightharpoonup> real) \<Rightarrow> error + (real \<times> (string \<rightharpoonup> real)) option" where
  "growPivot event panelsArray idBefore idAfter delta prevSizes sizeBeforeCollapse =
     (let pivotId = (if delta < 0 then idAfter else idBefore);
          index = findIndex (\<lambda>panel. panelId panel = pivotId) panelsArray
      in case elemAt panelsArray index of
           None \<Rightarrow> Inl TypeError
         | Some panel \<Rightarrow>
             (case elemAt prevSizes index of
                None \<Rightarrow> Inl UndefinedSize
              | Some prevSize \<Rightarrow>
                  (let nextSize = safeResizePanel panel \<bar>delta\<bar> prevSize event in
                   if prevSize = nextSize then Inr None
                   else Inr (Some
                     (if delta < 0 then prevSize - nextSize else nextSize - prevSize,
                      if nextSize = 0 \<and> prevSize > 0
                      then sizeBeforeCollapse(pivotId \<mapsto> prevSize)
                      else sizeBeforeCollapse)))))"

text \<open>
  The last two statements. An \<open>index\<close> of -1 names a property of the array object, not
  an element, so the elements stay as they are.
\<close>

definition commitPivot ::
  "PanelData list \<Rightarrow> string \<Rightarrow> string \<Rightarrow> real \<Rightarrow> real list \<Rightarrow> walkState
     \<Rightarrow> error + real list" where
  "commitPivot panelsArray idBefore idAfter delta prevSizes s =
     (let pivotId = (if delta < 0 then idAfter else idBefore);
          index = findIndex (\<lambda>panel. panelId panel = pivotId) panelsArray
      in if index < 0 then Inr (wNextSizes s)
         else
           (case elemAt prevSizes index of
              None \<Rightarrow> Inl UndefinedSize
            | Some prevSize \<Rightarrow>
                Inr ((wNextSizes s)[nat index := prevSize + wDeltaApplied s])))"

text \<open>
  \<open>precision\<close> is the constant \<open>PRECISION\<close> of the constants module, which the function
  takes here as a parameter.
\<close>

definition adjustByDelta ::
  "nat \<Rightarrow> ResizeEvent option \<Rightarrow> PanelMap \<Rightarrow> string \<Rightarrow> string \<Rightarrow> real \<Rightarrow> real list
     \<Rightarrow> (string \<rightharpoonup> real) \<Rightarrow> error + (sizesRef \<times> (string \<rightharpoonup> real))" where
  "adjustByDelta precision event panels idBefore idAfter delta prevSizes sizeBeforeCollapse =
     (if delta = 0 then Inr (PrevSizes, sizeBeforeCollapse)
      else
        let panelsArray = panelsMapToSortedArray panels in
        case growPivot event panelsArray idBefore idAfter delta prevSizes sizeBeforeCollapse of
          Inl e \<Rightarrow> Inl e
        | Inr None \<Rightarrow> Inr (PrevSizes, sizeBeforeCollapse)
        | Inr (Some (delta1, sizeBeforeCollapse1)) \<Rightarrow>
            (let pivotId = (if delta1 < 0 then idBefore else idAfter);
                 index = findIndex (\<lambda>panel. panelId panel = pivotId) panelsArray
             in case walk precision event panelsArray prevSizes delta1 index
                       \<lparr>wDeltaApplied = 0, wNextSizes = prevSizes,
                        wSizeBeforeCollapse = sizeBeforeCollapse1\<rparr> of
                  Inl e \<Rightarrow> Inl e
                | Inr s \<Rightarrow>
                    if wDeltaApplied s = 0 then Inr (PrevSizes, wSizeBeforeCollapse s)
                    else
                      (case commitPivot panelsArray idBefore idAfter delta1 prevSizes s of
                         Inl e \<Rightarrow> Inl e
                       | Inr sizes \<Rightarrow> Inr (NextSizes sizes, wSizeBeforeCollapse s))))"

section \<open>Delta propagation on doubles\<close>







text \<open>
  The definitions of the previous sections once more, with \<open>rnd\<close> applied to the result
  of every sum and difference of the source (lines 244, 46, 58, 67 and 96). With
  \<open>roundDouble\<close> for \<open>rnd\<close> they compute what the source computes on doubles; with the
  identity they are the exact definitions above.
\<close>

definition safeResizePanelFl ::
  "(real \<Rightarrow> real) \<Rightarrow> PanelData \<Rightarrow> real \<Rightarrow> real \<Rightarrow> ResizeEvent option \<Rightarrow> real" where
  "safeResizePanelFl rnd panel delta prevSize event =
     (let nextSizeUnsafe = rnd (prevSize + delta);
          nextSize = min (maxSize panel) (max (minSize panel) nextSizeUnsafe)
      in if collapsible panel then
           (if prevSize > 0 then
              (if nextSizeUnsafe \<le> 0 then 0 else nextSize)
            else
              (if \<not> isKeyboardEvent event then
                 (if nextSizeUnsafe < minSize panel then 0 else nextSize)
               else nextSize))
         else nextSize)"

definition walkStepFl ::
  "(real \<Rightarrow> real) \<Rightarrow> nat \<Rightarrow> ResizeEvent option \<Rightarrow> PanelData list \<Rightarrow> real list \<Rightarrow> real \<Rightarrow> int
     \<Rightarrow> walkState \<Rightarrow> error + (bool \<times> walkState)" where
  "walkStepFl rnd precision event panelsArray prevSizes delta index s =
     (case elemAt panelsArray index of
        None \<Rightarrow> Inl TypeError
      | Some panel \<Rightarrow>
          (case elemAt prevSizes index of
             None \<Rightarrow> Inl UndefinedSize
           | Some prevSize \<Rightarrow>
               (let nextSize = safeResizePanelFl rnd panel (rnd (0 - \<bar>delta\<bar>)) prevSize event in
                if prevSize \<noteq> nextSize then
                  (let s' = \<lparr>wDeltaApplied = rnd (wDeltaApplied s + rnd (prevSize - nextSize)),
                             wNextSizes = (wNextSizes s)[nat index := nextSize],
                             wSizeBeforeCollapse =
                               (if nextSize = 0 \<and> prevSize > 0
                                then (wSizeBeforeCollapse s)(panelId panel \<mapsto> prevSize)
                                else wSizeBeforeCollapse s)\<rparr>
                   in case toPrecision precision (wDeltaApplied s') of
                        Inl e \<Rightarrow> Inl e
                      | Inr a \<Rightarrow>
                          (case toPrecision precision delta of
                             Inl e \<Rightarrow> Inl e
                           | Inr b \<Rightarrow> Inr (stringGe a b, s')))
                else Inr (False, s))))"

function walkFl ::
  "(real \<Rightarrow> real) \<Rightarrow> nat \<Rightarrow> ResizeEvent option \<Rightarrow> PanelData list \<Rightarrow> real list \<Rightarrow> real \<Rightarrow> int
     \<Rightarrow> walkState \<Rightarrow> error + walkState" where
  "walkFl rnd precision event panelsArray prevSizes delta index s =
     (case walkStepFl rnd precision event panelsArray prevSizes delta index s of
        Inl e \<Rightarrow> Inl e
      | Inr (stop, s') \<Rightarrow>
          if stop then Inr s'
          else if delta < 0 then
            (if index - 1 < 0 then Inr s'
             else walkFl rnd precision event panelsArray prevSizes delta (index - 1) s')
          else
            (if index + 1 \<ge> int (length panelsArray) then Inr s'
             else walkFl rnd precision event panelsArray prevSizes delta (index + 1) s'))"
  by pat_completeness auto
termination
proof (relation "measure (\<lambda>(rnd, precision, event, panelsArray, prevSizes, delta, index, s).
        if delta < 0 then nat (index + 1) else nat (int (length panelsArray) - index))",
       goal_cases)
  case 1
  show ?case by (rule wf_measure)
next
  case (2 rnd precision event panelsArray prevSizes delta index s x2 stop s')
  then show ?case by simp
next
  case (3 rnd precision event panelsArray prevSizes delta index s x2 stop s')
  then show ?case by simp
qed

declare walkFl.simps [simp del]

definition growPivotFl ::
  "(real \<Rightarrow> real) \<Rightarrow> ResizeEvent option \<Rightarrow> PanelData list \<Rightarrow> string \<Rightarrow> string \<Rightarrow> real
     \<Rightarrow> real list \<Rightarrow> (string \<rightharpoonup> real) \<Rightarrow> error + (real \<times> (string \<rightharpoonup> real)) option" where
  "growPivotFl rnd event panelsArray idBefore idAfter delta prevSizes sizeBeforeCollapse =
     (let pivotId = (if delta < 0 then idAfter else idBefore);
          index = findIndex (\<lambda>panel. panelId panel = pivotId) panelsArray
      in case elemAt panelsArray index of
           None \<Rightarrow> Inl TypeError
         | Some panel \<Rightarrow>
             (case elemAt prevSizes index of
                None \<Rightarrow> Inl UndefinedSize
              | Some prevSize \<Rightarrow>
                  (let nextSize = safeResizePanelFl rnd panel \<bar>delta\<bar> prevSize event in
                   if prevSize = nextSize then Inr None
                   else Inr (Some
                     (if delta < 0 then rnd (prevSize - nextSize) else rnd (nextSize - prevSize),
                      if nextSize = 0 \<and> prevSize > 0
                      then sizeBeforeCollapse(pivotId \<mapsto> prevSize)
                      else sizeBeforeCollapse)))))"

definition commitPivotFl ::
  "(real \<Rightarrow> real) \<Rightarrow> PanelData list \<Rightarrow> string \<Rightarrow> string \<Rightarrow> real \<Rightarrow> real list \<Rightarrow> walkState
     \<Rightarrow> error + real list" where
  "commitPivotFl rnd panelsArray idBefore idAfter delta prevSizes s =
     (let pivotId = (if delta < 0 then idAfter else idBefore);
          index = findIndex (\<lambda>panel. panelId panel = pivotId) panelsArray
      in if index < 0 then Inr (wNextSizes s)
         else
           (case elemAt prevSizes index of
              None \<Rightarrow> Inl UndefinedSize
            | Some prevSize \<Rightarrow>
                Inr ((wNextSizes s)[nat index := rnd (prevSize + wDeltaApplied s)])))"

definition adjustByDeltaFl ::
  "(real \<Rightarrow> real) \<Rightarrow> nat \<Rightarrow> ResizeEvent option \<Rightarrow> PanelMap \<Rightarrow> string \<Rightarrow> string \<Rightarrow> real
     \<Rightarrow> real list \<Rightarrow> (string \<rightharpoonup> real) \<Rightarrow> error + (sizesRef \<times> (string \<rightharpoonup> real))" where
  "adjustByDeltaFl rnd precision event panels idBefore idAfter delta prevSizes sizeBeforeCollapse =
     (if delta = 0 then Inr (PrevSizes, sizeBeforeCollapse)
      else
        let panelsArray = panelsMapToSortedArray panels in
        case growPivotFl rnd event panelsArray idBefore idAfter delta prevSizes
               sizeBeforeCollapse of
          Inl e \<Rightarrow> Inl e
        | Inr None \<Rightarrow> Inr (PrevSizes, sizeBeforeCollapse)
        | Inr (Some (delta1, sizeBeforeCollapse1)) \<Rightarrow>
            (let pivotId = (if delta1 < 0 then idBefore else idAfter);
                 index = findIndex (\<lambda>panel. panelId panel = pivotId) panelsArray
             in case walkFl rnd precision event panelsArray prevSizes delta1 index
                       \<lparr>wDeltaApplied = 0, wNextSizes = prevSizes,
                        wSizeBeforeCollapse = sizeBeforeCollapse1\<rparr> of
                  Inl e \<Rightarrow> Inl e
                | Inr s \<Rightarrow>
                    if wDeltaApplied s = 0 then Inr (PrevSizes, wSizeBeforeCollapse s)
                    else
                      (case commitPivotFl rnd panelsArray idBefore idAfter delta1 prevSizes s of
                         Inl e \<Rightarrow> Inl e
                       | Inr sizes \<Rightarrow> Inr (NextSizes sizes, wSizeBeforeCollapse s))))"

section \<open>Change notification\<close>

text \<open>The calls made to the hooks, in order: the index of the panel and the argument.\<close>

datatype call = OnResize nat real | OnCollapse nat bool

text \<open>The body of the \<open>forEach\<close> callback at one index of \<open>nextSizes\<close>.\<close>

definition callbacksAt :: "PanelData list \<Rightarrow> real list \<Rightarrow> real list \<Rightarrow> nat \<Rightarrow> error + call list" where
  "callbacksAt panelsArray prevSizes nextSizes index =
     (let nextSize = nextSizes ! index;
          prevSize = elemAt prevSizes (int index)
      in if prevSize \<noteq> Some nextSize then
           (case elemAt panelsArray (int index) of
              None \<Rightarrow> Inl TypeError
            | Some panel \<Rightarrow>
                Inr ((if onResize (callbacksRef panel) then [OnResize index nextSize] else [])
                     @ (if collapsible panel \<and> onCollapse (callbacksRef panel) then
                          (if (prevSize = None \<or> prevSize = Some 0) \<and> nextSize \<noteq> 0
                           then [OnCollapse index False]
                           else if prevSize \<noteq> Some 0 \<and> nextSize = 0
                           then [OnCollapse index True]
                           else [])
                        else [])))
         else Inr [])"

fun forEachIndex :: "(nat \<Rightarrow> error + call list) \<Rightarrow> nat list \<Rightarrow> error + call list" where
  "forEachIndex f [] = Inr []"
| "forEachIndex f (i # is) =
     (case f i of
        Inl e \<Rightarrow> Inl e
      | Inr cs \<Rightarrow> (case forEachIndex f is of Inl e \<Rightarrow> Inl e | Inr ds \<Rightarrow> Inr (cs @ ds)))"

definition callPanelCallbacks :: "PanelData list \<Rightarrow> real list \<Rightarrow> real list \<Rightarrow> error + call list" where
  "callPanelCallbacks panelsArray prevSizes nextSizes =
     forEachIndex (callbacksAt panelsArray prevSizes nextSizes) [0..<length nextSizes]"

section \<open>Percentage query\<close>

definition getFlexGrow :: "nat \<Rightarrow> PanelMap \<Rightarrow> string \<Rightarrow> real list \<Rightarrow> error + string" where
  "getFlexGrow precision panels ident sizes =
     (if length panels = 1 then Inr ''100''
      else
        let panelsArray = panelsMapToSortedArray panels;
            index = findIndex (\<lambda>panel. panelId panel = ident) panelsArray
        in case elemAt sizes index of
             None \<Rightarrow> Inr ''0''
           | Some sz \<Rightarrow> toPrecision precision sz)"

section \<open>Notions used in the statements\<close>

abbreviation indexOf :: "PanelData list \<Rightarrow> string \<Rightarrow> int" where
  "indexOf panelsArray ident \<equiv> findIndex (\<lambda>panel. panelId panel = ident) panelsArray"

text \<open>What the loop asks of the panel at index \<open>k\<close>: its size after shrinking by \<open>|delta|\<close>.\<close>

definition shrunk :: "ResizeEvent option \<Rightarrow> PanelData list \<Rightarrow> real list \<Rightarrow> real \<Rightarrow> nat \<Rightarrow> real" where
  "shrunk event panelsArray prevSizes delta k =
     safeResizePanel (panelsArray ! k) (0 - \<bar>delta\<bar>) (prevSizes ! k) event"

text \<open>The indices the loop can still reach from \<open>index\<close>: downwards for a negative delta.\<close>

definition remaining :: "real \<Rightarrow> int \<Rightarrow> nat \<Rightarrow> nat set" where
  "remaining delta index n =
     (if delta < 0 then {k. int k \<le> index} else {k. index \<le> int k \<and> k < n})"

text \<open>A size a panel may hold: within its bounds, or exactly 0 when it is collapsible.\<close>

definition sizeWithinBounds :: "PanelData \<Rightarrow> real \<Rightarrow> bool" where
  "sizeWithinBounds panel s =
     (s = 0 \<and> collapsible panel \<or> minSize panel \<le> s \<and> s \<le> maxSize panel)"

definition validBounds :: "PanelData \<Rightarrow> bool" where
  "validBounds panel = (0 \<le> minSize panel \<and> minSize panel \<le> maxSize panel)"

text \<open>The panel a call is made for.\<close>

fun callIndex :: "call \<Rightarrow> nat" where
  "callIndex (OnResize i v) = i"
| "callIndex (OnCollapse i b) = i"

text \<open>
  The calls the amended claim C7 prescribes for one panel, in its own words: none when the
  size is unchanged; otherwise the resize hook with the new size, then, for a collapsible
  panel with a collapse hook, \<open>onCollapse(true)\<close> when the new size is 0 (the previous
  one being a nonzero size or absent) and \<open>onCollapse(false)\<close> when the new size is not
  0 and the previous one is 0 or absent.
\<close>

definition expectedCalls :: "PanelData \<Rightarrow> nat \<Rightarrow> real option \<Rightarrow> real \<Rightarrow> call list" where
  "expectedCalls panel i prevSize nextSize =
     (if prevSize = Some nextSize then []
      else
        (if onResize (callbacksRef panel) then [OnResize i nextSize] else [])
        @ (if collapsible panel \<and> onCollapse (callbacksRef panel) then
             (if nextSize = 0 then [OnCollapse i True]
              else if prevSize = None \<or> prevSize = Some 0 then [OnCollapse i False]
              else [])
           else []))"

text \<open>A panel with both hooks set, for the examples.\<close>

abbreviation (input) mkPanel :: "string \<Rightarrow> real \<Rightarrow> real \<Rightarrow> real \<Rightarrow> bool \<Rightarrow> PanelData" where
  "mkPanel ident ord lo hi c \<equiv>
     \<lparr>callbacksRef = \<lparr>onCollapse = True, onResize = True\<rparr>, collapsible = c,
      panelId = ident, maxSize = hi, minSize = lo, order = ord\<rparr>"

section \<open>Arrays and lookups\<close>

lemma elemAt_Some:
  "elemAt xs i = Some x \<longleftrightarrow> 0 \<le> i \<and> nat i < length xs \<and> x = xs ! nat i"
  by (auto simp: elemAt_def)

lemma elemAt_neg: "i < 0 \<Longrightarrow> elemAt xs i = None"
  by (simp add: elemAt_def)

lemma findIndex_bounds: "- 1 \<le> findIndex t xs \<and> findIndex t xs < int (length xs)"
  by (induction xs) (auto simp: Let_def)

lemma findIndex_none: "(\<forall>x \<in> set xs. \<not> t x) \<Longrightarrow> findIndex t xs = - 1"
  by (induction xs) (auto simp: Let_def)

lemma sum_list_update_real:
  fixes xs :: "real list"
  shows "k < length xs \<Longrightarrow> sum_list (xs[k := v]) = sum_list xs - xs ! k + v"
proof (induction xs arbitrary: k)
  case Nil
  then show ?case by simp
next
  case (Cons x xs)
  then show ?case by (cases k) simp_all
qed

lemma set_panelsMapToSortedArray: "set (panelsMapToSortedArray panels) = snd ` set panels"
  by (simp add: panelsMapToSortedArray_def)

text \<open>The equations that run the functions on concrete inputs.\<close>

lemmas run_defs =
  adjustByDelta_def growPivot_def commitPivot_def panelsMapToSortedArray_def elemAt_def
  safeResizePanel_def isKeyboardEvent_def walk.simps walkStep_def toPrecision_def
  toPrecisionAbs_def roundToPrecision_def formatPrecision_def exponent10_def
  exponentUp.simps exponentDown.simps scale10_def
  digitChar_def digits.simps decimal.simps stringGe_def Let_def

section \<open>The shrink-side loop\<close>

lemma walkStep_Inr:
  assumes "walkStep pr ev ps prev d i s = Inr (stop, s1)"
  shows "0 \<le> i" and "nat i < length ps" and "nat i < length prev"
    and "wDeltaApplied s1 = wDeltaApplied s + (prev ! nat i - shrunk ev ps prev d (nat i))"
    and "wNextSizes s1 =
           (if prev ! nat i = shrunk ev ps prev d (nat i) then wNextSizes s
            else (wNextSizes s)[nat i := shrunk ev ps prev d (nat i)])"
  using assms
  by (auto simp: walkStep_def shrunk_def elemAt_Some Let_def
           split: option.splits if_splits sum.splits)

lemma walk_result:
  assumes "walk pr ev ps prev d i s = Inr s'"
    and "length (wNextSizes s) = length prev"
    and "\<forall>k \<in> remaining d i (length ps). wNextSizes s ! k = prev ! k"
  shows "length (wNextSizes s') = length prev
       \<and> (\<forall>k. wNextSizes s' ! k = wNextSizes s ! k
              \<or> k \<in> remaining d i (length ps) \<and> k < length prev
                \<and> wNextSizes s' ! k = shrunk ev ps prev d k)
       \<and> sum_list (wNextSizes s') + wDeltaApplied s'
           = sum_list (wNextSizes s) + wDeltaApplied s"
  using assms
proof (induction pr ev ps prev d i s rule: walk.induct)
  case (1 pr ev ps prev d i s)
  let ?R = "\<lambda>j. remaining d j (length ps)"
  let ?goal = "\<lambda>t. length (wNextSizes t) = length prev
       \<and> (\<forall>k. wNextSizes t ! k = wNextSizes s ! k
              \<or> k \<in> ?R i \<and> k < length prev \<and> wNextSizes t ! k = shrunk ev ps prev d k)
       \<and> sum_list (wNextSizes t) + wDeltaApplied t = sum_list (wNextSizes s) + wDeltaApplied s"
  from "1.prems"(1) obtain stop s1 where step: "walkStep pr ev ps prev d i s = Inr (stop, s1)"
    by (subst (asm) walk.simps) (auto split: sum.splits)
  note st = walkStep_Inr [OF step]
  have here: "nat i \<in> ?R i"
    using st(1,2) by (simp add: remaining_def)
  with "1.prems"(3) have same: "wNextSizes s ! nat i = prev ! nat i" by blast
  have sum1: "sum_list (wNextSizes s1) + wDeltaApplied s1 = sum_list (wNextSizes s) + wDeltaApplied s"
    using st(3,4,5) same "1.prems"(2) by (simp add: sum_list_update_real)
  have len1: "length (wNextSizes s1) = length prev"
    using st(5) "1.prems"(2) by simp
  have frame1: "wNextSizes s1 ! k = wNextSizes s ! k
      \<or> k = nat i \<and> wNextSizes s1 ! k = shrunk ev ps prev d k" for k
    using st(3,5) "1.prems"(2) by (cases "k = nat i") simp_all
  have base: "?goal s1"
    using len1 sum1 frame1 here st(3) by metis
  have rec_goal: "?goal s'"
    if rec: "walk pr ev ps prev d j s1 = Inr s'"
      and ih: "walk pr ev ps prev d j s1 = Inr s' \<Longrightarrow> length (wNextSizes s1) = length prev
             \<Longrightarrow> \<forall>k \<in> ?R j. wNextSizes s1 ! k = prev ! k
             \<Longrightarrow> length (wNextSizes s') = length prev
       \<and> (\<forall>k. wNextSizes s' ! k = wNextSizes s1 ! k
              \<or> k \<in> ?R j \<and> k < length prev \<and> wNextSizes s' ! k = shrunk ev ps prev d k)
       \<and> sum_list (wNextSizes s') + wDeltaApplied s'
           = sum_list (wNextSizes s1) + wDeltaApplied s1"
      and sub: "?R j \<subseteq> ?R i - {nat i}" for j
  proof -
    have inv: "\<forall>k \<in> ?R j. wNextSizes s1 ! k = prev ! k"
    proof
      fix k assume k: "k \<in> ?R j"
      with sub have "k \<in> ?R i" and "k \<noteq> nat i" by auto
      with frame1 [of k] "1.prems"(3) show "wNextSizes s1 ! k = prev ! k" by auto
    qed
    note r = ih [OF rec len1 inv]
    have "wNextSizes s' ! k = wNextSizes s ! k
              \<or> k \<in> ?R i \<and> k < length prev \<and> wNextSizes s' ! k = shrunk ev ps prev d k" for k
      using r frame1 [of k] sub here st(3) by (metis DiffD1 subsetD)
    with r sum1 show ?thesis by simp
  qed
  show ?case
  proof (cases stop)
    case True
    with step "1.prems"(1) have "s' = s1" by (subst (asm) walk.simps) simp
    with base show ?thesis by simp
  next
    case False
    show ?thesis
    proof (cases "d < 0")
      case neg: True
      show ?thesis
      proof (cases "i - 1 < 0")
        case True
        with step False neg "1.prems"(1) have "s' = s1" by (subst (asm) walk.simps) simp
        with base show ?thesis by simp
      next
        case more: False
        with step False neg "1.prems"(1)
        have rec: "walk pr ev ps prev d (i - 1) s1 = Inr s'" by (subst (asm) walk.simps) simp
        have sub: "?R (i - 1) \<subseteq> ?R i - {nat i}"
        proof
          fix k assume "k \<in> ?R (i - 1)"
          with neg have "int k \<le> i - 1" by (simp add: remaining_def)
          with st(1) neg show "k \<in> ?R i - {nat i}" by (auto simp: remaining_def)
        qed
        show ?thesis
          by (rule rec_goal [OF rec "1.IH"(1) [OF step refl False neg more] sub])
      qed
    next
      case pos: False
      show ?thesis
      proof (cases "int (length ps) \<le> i + 1")
        case True
        with step False pos "1.prems"(1) have "s' = s1" by (subst (asm) walk.simps) simp
        with base show ?thesis by simp
      next
        case more: False
        with step False pos "1.prems"(1)
        have rec: "walk pr ev ps prev d (i + 1) s1 = Inr s'" by (subst (asm) walk.simps) simp
        have sub: "?R (i + 1) \<subseteq> ?R i - {nat i}"
        proof
          fix k assume "k \<in> ?R (i + 1)"
          with pos have "i + 1 \<le> int k" "k < length ps" by (simp_all add: remaining_def)
          with st(1) pos show "k \<in> ?R i - {nat i}" by (auto simp: remaining_def)
        qed
        show ?thesis
          by (rule rec_goal [OF rec "1.IH"(2) [OF step refl False pos more] sub])
      qed
    qed
  qed
qed


text \<open>
  The loop leaves no panel out before it stops: if the sizes it returns are the previous
  ones on all the indices it could reach, then none of those panels can shrink.
\<close>

lemma walk_untouched_means_unchangeable:
  assumes "walk pr ev ps prev d i s = Inr s'"
    and "length (wNextSizes s) = length prev"
    and "\<forall>k \<in> remaining d i (length ps). wNextSizes s ! k = prev ! k"
    and "\<forall>k \<in> remaining d i (length ps). wNextSizes s' ! k = prev ! k"
  shows "\<forall>k \<in> remaining d i (length ps). k < length ps \<longrightarrow> shrunk ev ps prev d k = prev ! k"
  using assms
proof (induction pr ev ps prev d i s rule: walk.induct)
  case (1 pr ev ps prev d i s)
  let ?R = "\<lambda>j. remaining d j (length ps)"
  from "1.prems"(1) obtain stop s1 where step: "walkStep pr ev ps prev d i s = Inr (stop, s1)"
    by (subst (asm) walk.simps) (auto split: sum.splits)
  note st = walkStep_Inr [OF step]
  have here: "nat i \<in> ?R i"
    using st(1,2) by (simp add: remaining_def)
  note res = walk_result [OF "1.prems"(1,2,3)]
  have unchanged: "shrunk ev ps prev d (nat i) = prev ! nat i"
  proof (rule ccontr)
    assume ne: "shrunk ev ps prev d (nat i) \<noteq> prev ! nat i"
    with st(3,5) "1.prems"(2)
    have s1: "wNextSizes s1 ! nat i = shrunk ev ps prev d (nat i)"
      and len1: "length (wNextSizes s1) = length prev" by simp_all
    have "wNextSizes s' ! nat i = wNextSizes s1 ! nat i"
    proof (cases "stop \<or> (if d < 0 then i - 1 < 0 else int (length ps) \<le> i + 1)")
      case True
      with step "1.prems"(1) have "s' = s1"
        by (subst (asm) walk.simps) (auto split: if_splits)
      then show ?thesis by simp
    next
      case False
      let ?j = "if d < 0 then i - 1 else i + 1"
      from False step "1.prems"(1) have rec: "walk pr ev ps prev d ?j s1 = Inr s'"
        by (subst (asm) walk.simps) (auto split: if_splits)
      have inv: "\<forall>k \<in> ?R ?j. wNextSizes s1 ! k = prev ! k"
        using "1.prems"(3) st(1,5) by (auto simp: remaining_def)
      have "nat i \<notin> ?R ?j" using st(1) by (auto simp: remaining_def)
      with walk_result [OF rec len1 inv] show ?thesis by blast
    qed
    with s1 ne "1.prems"(4) here show False by auto
  qed
  with step have same: "s1 = s" and go: "\<not> stop"
    by (auto simp: walkStep_def shrunk_def elemAt_Some Let_def split: option.splits if_splits)
  show ?case
  proof (cases "d < 0")
    case neg: True
    show ?thesis
    proof (cases "i - 1 < 0")
      case True
      with neg st(1) have "?R i = {nat i}" by (auto simp: remaining_def)
      with unchanged show ?thesis by simp
    next
      case more: False
      with step go neg "1.prems"(1) same
      have rec: "walk pr ev ps prev d (i - 1) s = Inr s'" by (subst (asm) walk.simps) simp
      have sub: "?R (i - 1) \<subseteq> ?R i" and split: "?R i \<subseteq> insert (nat i) (?R (i - 1))"
        using neg st(1) by (auto simp: remaining_def)
      from sub "1.prems"(3,4)
      have "\<forall>k \<in> ?R (i - 1). wNextSizes s ! k = prev ! k"
        and "\<forall>k \<in> ?R (i - 1). wNextSizes s' ! k = prev ! k" by blast+
      from "1.IH"(1) [OF step refl go neg more rec [folded same] "1.prems"(2) [folded same]
             this(1) [folded same] this(2)]
      have "\<forall>k \<in> ?R (i - 1). k < length ps \<longrightarrow> shrunk ev ps prev d k = prev ! k" .
      with unchanged split show ?thesis by blast
    qed
  next
    case pos: False
    show ?thesis
    proof (cases "int (length ps) \<le> i + 1")
      case True
      with pos st(1,2) have "?R i = {nat i}" by (auto simp: remaining_def)
      with unchanged show ?thesis by simp
    next
      case more: False
      with step go pos "1.prems"(1) same
      have rec: "walk pr ev ps prev d (i + 1) s = Inr s'" by (subst (asm) walk.simps) simp
      have sub: "?R (i + 1) \<subseteq> ?R i" and split: "?R i \<subseteq> insert (nat i) (?R (i + 1))"
        using pos st(1) by (auto simp: remaining_def)
      from sub "1.prems"(3,4)
      have "\<forall>k \<in> ?R (i + 1). wNextSizes s ! k = prev ! k"
        and "\<forall>k \<in> ?R (i + 1). wNextSizes s' ! k = prev ! k" by blast+
      from "1.IH"(2) [OF step refl go pos more rec [folded same] "1.prems"(2) [folded same]
             this(1) [folded same] this(2)]
      have "\<forall>k \<in> ?R (i + 1). k < length ps \<longrightarrow> shrunk ev ps prev d k = prev ! k" .
      with unchanged split show ?thesis by blast
    qed
  qed
qed

section \<open>The test that leaves the loop\<close>

text \<open>
  A formatted number that is not negative starts with a digit, a negative one with the
  minus sign, whose code unit is smaller. So with a negative delta the test
  \<open>deltaApplied.toPrecision(PRECISION) >= delta.toPrecision(PRECISION)\<close> holds as soon as a
  panel has changed, however little has been applied.
\<close>

lemma digitChar_code: "d < 10 \<Longrightarrow> 48 \<le> (of_char (digitChar d) :: nat)"
proof -
  assume "d < 10"
  then have "d \<in> {0, 1, 2, 3, 4, 5, 6, 7, 8, 9}" by auto
  then show ?thesis by (auto simp: digitChar_def)
qed

lemma digits_head:
  "0 < p \<Longrightarrow> \<exists>c cs. digits p n = c # cs \<and> 48 \<le> (of_char c :: nat)"
proof (induction p n rule: digits.induct)
  case (1 k n)
  show ?case
  proof (cases "k - 1 = 0")
    case True
    with "1.prems" have "digits k n = [digitChar (n mod 10)]"
      by (simp add: digits.simps [of k] digits.simps [of 0])
    then show ?thesis by (simp add: digitChar_code)
  next
    case False
    with "1.prems" "1.IH" obtain c cs where "digits (k - 1) (n div 10) = c # cs"
      and "48 \<le> (of_char c :: nat)" by auto
    with "1.prems" show ?thesis by (simp add: digits.simps [of k])
  qed
qed

lemma formatPrecision_head:
  assumes "0 < p"
  shows "\<exists>c cs. formatPrecision p n e = c # cs \<and> 48 \<le> (of_char c :: nat)"
proof -
  from digits_head [OF assms, of n] obtain c cs
    where m: "digits p n = c # cs" and c: "48 \<le> (of_char c :: nat)" by blast
  have tk: "take (nat (e + 1)) (c # cs) = c # take (nat e) cs" if "0 \<le> e"
    using that by (simp add: take_Cons' nat_add_distrib)
  have zero: "48 \<le> (of_char CHR ''0'' :: nat)" by simp
  consider (expo) "e < - 6 \<or> int p \<le> e"
    | (whole) "\<not> (e < - 6 \<or> int p \<le> e)" "e = int p - 1"
    | (point) "\<not> (e < - 6 \<or> int p \<le> e)" "e \<noteq> int p - 1" "0 \<le> e"
    | (small) "\<not> (e < - 6 \<or> int p \<le> e)" "e \<noteq> int p - 1" "\<not> 0 \<le> e"
    by blast
  then show ?thesis
  proof cases
    case expo
    then have "formatPrecision p n e
        = c # (if p \<noteq> 1 then ''.'' @ cs else cs)
            @ ''e'' @ (if 0 \<le> e then ''+'' else ''-'') @ decimal (nat \<bar>e\<bar>)"
      unfolding formatPrecision_def m Let_def by (simp split: if_splits)
    with c show ?thesis by blast
  next
    case whole
    then have "formatPrecision p n e = c # cs"
      unfolding formatPrecision_def m Let_def by simp
    with c show ?thesis by blast
  next
    case point
    then have "formatPrecision p n e = c # take (nat e) cs @ ''.'' @ drop (nat (e + 1)) (c # cs)"
      unfolding formatPrecision_def m Let_def by (simp add: tk)
    with c show ?thesis by blast
  next
    case small
    then have "formatPrecision p n e
        = CHR ''0'' # ''.'' @ replicate (nat (- (e + 1))) CHR ''0'' @ c # cs"
      unfolding formatPrecision_def m Let_def by simp
    with zero show ?thesis by blast
  qed
qed

lemma toPrecisionAbs_head:
  assumes "0 < p"
  shows "\<exists>c cs. toPrecisionAbs p x = c # cs \<and> 48 \<le> (of_char c :: nat)"
proof -
  obtain n e where "(if x = 0 then (0, 0) else roundToPrecision p x) = (n, e)"
    by (cases "if x = 0 then (0, 0) else roundToPrecision p x") 
  then have "toPrecisionAbs p x = formatPrecision p n e"
    by (simp add: toPrecisionAbs_def)
  with formatPrecision_head [OF assms, of n e] show ?thesis by simp
qed

lemma toPrecision_nonneg_head:
  assumes "toPrecision p x = Inr a" and "0 \<le> x"
  shows "\<exists>c cs. a = c # cs \<and> 48 \<le> (of_char c :: nat)"
proof -
  from assms(1) have p: "0 < p" by (auto simp: toPrecision_def split: if_splits)
  from assms have "a = toPrecisionAbs p \<bar>x\<bar>"
    by (auto simp: toPrecision_def split: if_splits)
  with toPrecisionAbs_head [OF p, of "\<bar>x\<bar>"] show ?thesis by simp
qed

lemma toPrecision_neg_head:
  assumes "toPrecision p x = Inr b" and "x < 0"
  shows "\<exists>cs. b = CHR ''-'' # cs"
  using assms by (auto simp: toPrecision_def split: if_splits)

lemma walkStep_stops_for_negative_delta:
  assumes step: "walkStep pr ev ps prev d i s = Inr (stop, s1)"
    and neg: "d < 0"
    and changed: "shrunk ev ps prev d (nat i) \<noteq> prev ! nat i"
    and applied: "0 \<le> wDeltaApplied s1"
  shows "stop"
proof -
  from step changed obtain a b where
    a: "toPrecision pr (wDeltaApplied s1) = Inr a" and b: "toPrecision pr d = Inr b"
    and stop: "stop = stringGe a b"
    by (auto simp: walkStep_def shrunk_def elemAt_Some Let_def
             split: option.splits if_splits sum.splits)
  from toPrecision_nonneg_head [OF a applied] obtain c cs
    where "a = c # cs" and "48 \<le> (of_char c :: nat)" by blast
  moreover from toPrecision_neg_head [OF b neg] obtain ds where "b = CHR ''-'' # ds" by blast
  ultimately show ?thesis by (simp add: stop stringGe_def)
qed

section \<open>The stages of delta propagation\<close>

lemma growPivot_Some:
  assumes "growPivot ev ps idB idA d prev m = Inr (Some (d1, m1))"
  shows "0 \<le> indexOf ps (if d < 0 then idA else idB)"
    and "nat (indexOf ps (if d < 0 then idA else idB)) < length ps"
    and "nat (indexOf ps (if d < 0 then idA else idB)) < length prev"
    and "safeResizePanel (ps ! nat (indexOf ps (if d < 0 then idA else idB))) \<bar>d\<bar>
           (prev ! nat (indexOf ps (if d < 0 then idA else idB))) ev
         \<noteq> prev ! nat (indexOf ps (if d < 0 then idA else idB))"
    and "d1 = (if d < 0
               then prev ! nat (indexOf ps (if d < 0 then idA else idB))
                    - safeResizePanel (ps ! nat (indexOf ps (if d < 0 then idA else idB))) \<bar>d\<bar>
                        (prev ! nat (indexOf ps (if d < 0 then idA else idB))) ev
               else safeResizePanel (ps ! nat (indexOf ps (if d < 0 then idA else idB))) \<bar>d\<bar>
                        (prev ! nat (indexOf ps (if d < 0 then idA else idB))) ev
                    - prev ! nat (indexOf ps (if d < 0 then idA else idB)))"
  using assms
  by (auto simp: growPivot_def Let_def elemAt_Some split: option.splits if_splits)

lemma commitPivot_Inr:
  assumes "commitPivot ps idB idA d1 prev s = Inr xs"
  shows "indexOf ps (if d1 < 0 then idA else idB) < 0 \<and> xs = wNextSizes s
       \<or> 0 \<le> indexOf ps (if d1 < 0 then idA else idB)
         \<and> nat (indexOf ps (if d1 < 0 then idA else idB)) < length prev
         \<and> xs = (wNextSizes s)
              [nat (indexOf ps (if d1 < 0 then idA else idB))
                 := prev ! nat (indexOf ps (if d1 < 0 then idA else idB)) + wDeltaApplied s]"
  using assms
  by (auto simp: commitPivot_def Let_def elemAt_Some split: option.splits if_splits)

lemma adjustByDelta_NextSizes:
  assumes "adjustByDelta pr ev panels idB idA d prev m = Inr (NextSizes xs, m')"
  obtains d1 m1 s where
    "d \<noteq> 0"
    "growPivot ev (panelsMapToSortedArray panels) idB idA d prev m = Inr (Some (d1, m1))"
    "walk pr ev (panelsMapToSortedArray panels) prev d1
        (indexOf (panelsMapToSortedArray panels) (if d1 < 0 then idB else idA))
        \<lparr>wDeltaApplied = 0, wNextSizes = prev, wSizeBeforeCollapse = m1\<rparr> = Inr s"
    "wDeltaApplied s \<noteq> 0"
    "commitPivot (panelsMapToSortedArray panels) idB idA d1 prev s = Inr xs"
    "m' = wSizeBeforeCollapse s"
  using assms
  by (auto simp: adjustByDelta_def Let_def
           split: if_splits sum.splits option.splits prod.splits)

lemma walk_from_prevSizes:
  assumes "walk pr ev ps prev d1 i1
             \<lparr>wDeltaApplied = 0, wNextSizes = prev, wSizeBeforeCollapse = m1\<rparr> = Inr s"
  shows "length (wNextSizes s) = length prev"
    and "wNextSizes s ! k = prev ! k
         \<or> k \<in> remaining d1 i1 (length ps) \<and> k < length prev
           \<and> wNextSizes s ! k = shrunk ev ps prev d1 k"
    and "sum_list (wNextSizes s) + wDeltaApplied s = sum_list prev"
  using walk_result [OF assms] by simp_all


lemma safeResizePanel_grow:
  assumes "validBounds panel" and "sizeWithinBounds panel s"
  shows "s \<le> safeResizePanel panel \<bar>d\<bar> s ev"
  using assms
  by (auto simp: safeResizePanel_def sizeWithinBounds_def validBounds_def Let_def)

lemma safeResizePanel_shrink:
  assumes "validBounds panel" and "sizeWithinBounds panel s" and "\<not> isKeyboardEvent ev"
  shows "safeResizePanel panel (0 - \<bar>d\<bar>) s ev \<le> s"
  using assms
  by (auto simp: safeResizePanel_def sizeWithinBounds_def validBounds_def Let_def)

lemma growPivot_sign:
  assumes g: "growPivot ev ps idB idA d prev m = Inr (Some (d1, m1))"
    and sizes: "list_all2 sizeWithinBounds ps prev"
    and bounds: "list_all validBounds ps"
  shows "(d1 < 0) = (d < 0)"
proof -
  let ?i = "nat (indexOf ps (if d < 0 then idA else idB))"
  note p = growPivot_Some [OF g]
  from bounds p(2) have "validBounds (ps ! ?i)" by (simp add: list_all_length)
  moreover from sizes p(2) have "sizeWithinBounds (ps ! ?i) (prev ! ?i)"
    by (simp add: list_all2_nthD)
  ultimately have "prev ! ?i \<le> safeResizePanel (ps ! ?i) \<bar>d\<bar> (prev ! ?i) ev"
    by (rule safeResizePanel_grow)
  with p(4) have "prev ! ?i < safeResizePanel (ps ! ?i) \<bar>d\<bar> (prev ! ?i) ev" by simp
  with p(5) show ?thesis by (simp split: if_splits)
qed

lemma walk_applied_sum:
  assumes w: "walk pr ev ps prev d1 i1
             \<lparr>wDeltaApplied = 0, wNextSizes = prev, wSizeBeforeCollapse = m1\<rparr> = Inr s"
  shows "wDeltaApplied s
         = (\<Sum>k \<in> remaining d1 i1 (length ps) \<inter> {..<length prev}. prev ! k - wNextSizes s ! k)"
proof -
  note res = walk_from_prevSizes [OF w]
  let ?n = "length prev"
  let ?f = "\<lambda>k. prev ! k - wNextSizes s ! k"
  have "wDeltaApplied s = sum_list prev - sum_list (wNextSizes s)"
    using res(3) by simp
  also have "\<dots> = (\<Sum>k<?n. prev ! k) - (\<Sum>k<?n. wNextSizes s ! k)"
    using res(1) by (simp add: sum_list_sum_nth atLeast0LessThan)
  also have "\<dots> = (\<Sum>k<?n. ?f k)"
    by (simp add: sum_subtractf)
  also have "\<dots> = (\<Sum>k \<in> remaining d1 i1 (length ps) \<inter> {..<?n}. ?f k)"
  proof (rule sum.mono_neutral_right)
    show "finite {..<?n}" by simp
    show "remaining d1 i1 (length ps) \<inter> {..<?n} \<subseteq> {..<?n}" by simp
    show "\<forall>k \<in> {..<?n} - remaining d1 i1 (length ps) \<inter> {..<?n}. ?f k = 0"
    proof
      fix k assume "k \<in> {..<?n} - remaining d1 i1 (length ps) \<inter> {..<?n}"
      then have "k \<notin> remaining d1 i1 (length ps)" by blast
      with res(2) [of k] show "?f k = 0" by simp
    qed
  qed
  finally show ?thesis .
qed

text \<open>
  For an event that is not a keyboard event, size only flows into the pivot: the pivot
  grows, the panels on the shrink side keep their size or shrink, and every other panel
  keeps its size.
\<close>

lemma adjustByDelta_frame_without_keyboard:
  assumes run: "adjustByDelta precision event panels idBefore idAfter delta prevSizes memo
                  = Inr (NextSizes xs, memo')"
    and found: "0 \<le> indexOf (panelsMapToSortedArray panels) idBefore"
    and sides: "indexOf (panelsMapToSortedArray panels) idBefore
                  < indexOf (panelsMapToSortedArray panels) idAfter"
    and sizes: "list_all2 sizeWithinBounds (panelsMapToSortedArray panels) prevSizes"
    and bounds: "list_all validBounds (panelsMapToSortedArray panels)"
    and pointer: "\<not> isKeyboardEvent event"
    and k: "k < length prevSizes"
  shows "if int k = indexOf (panelsMapToSortedArray panels) (if delta < 0 then idAfter else idBefore)
         then prevSizes ! k < xs ! k
         else if k \<in> (if delta < 0
                       then {..nat (indexOf (panelsMapToSortedArray panels) idBefore)}
                       else {nat (indexOf (panelsMapToSortedArray panels) idAfter)
                               ..< length (panelsMapToSortedArray panels)})
         then xs ! k \<le> prevSizes ! k
         else xs ! k = prevSizes ! k"
proof -
  let ?ps = "panelsMapToSortedArray panels"
  let ?iB = "indexOf ?ps idBefore"
  let ?iA = "indexOf ?ps idAfter"
  let ?S = "if delta < 0 then {..nat ?iB} else {nat ?iA ..< length ?ps}"
  let ?pv = "nat (indexOf ?ps (if delta < 0 then idAfter else idBefore))"
  from run
  obtain d1 m1 s where
    g: "growPivot event ?ps idBefore idAfter delta prevSizes memo = Inr (Some (d1, m1))"
    and w: "walk precision event ?ps prevSizes d1 (indexOf ?ps (if d1 < 0 then idBefore else idAfter))
          \<lparr>wDeltaApplied = 0, wNextSizes = prevSizes, wSizeBeforeCollapse = m1\<rparr> = Inr s"
    and nz: "wDeltaApplied s \<noteq> 0"
    and c: "commitPivot ?ps idBefore idAfter d1 prevSizes s = Inr xs"
    by (rule adjustByDelta_NextSizes)
  note sign = growPivot_sign [OF g sizes bounds]
  from sizes have len: "length prevSizes = length ?ps"
    by (simp add: list_all2_lengthD)
  have iA: "?iA < int (length ?ps)"
    using findIndex_bounds [of "\<lambda>panel. panelId panel = idAfter" ?ps] by simp
  let ?R = "remaining d1 (indexOf ?ps (if d1 < 0 then idBefore else idAfter)) (length ?ps)"
  have S: "?R \<inter> {..<length prevSizes} = ?S"
    using found sides iA sign len by (auto simp: remaining_def)
  have pv: "0 \<le> indexOf ?ps (if d1 < 0 then idAfter else idBefore)"
    and pv_eq: "nat (indexOf ?ps (if d1 < 0 then idAfter else idBefore)) = ?pv"
    and out: "?pv \<notin> ?S"
    using found sides sign by auto
  from commitPivot_Inr [OF c] pv pv_eq
  have xs: "xs = (wNextSizes s)[?pv := prevSizes ! ?pv + wDeltaApplied s]"
    and lt: "?pv < length prevSizes" by auto
  note res = walk_from_prevSizes [OF w]
  have le: "wNextSizes s ! j \<le> prevSizes ! j" if "j < length prevSizes" for j
  proof -
    from that len bounds have "validBounds (?ps ! j)" by (simp add: list_all_length)
    moreover from that len sizes have "sizeWithinBounds (?ps ! j) (prevSizes ! j)"
      by (simp add: list_all2_nthD)
    ultimately have "shrunk event ?ps prevSizes d1 j \<le> prevSizes ! j"
      unfolding shrunk_def using pointer by (rule safeResizePanel_shrink)
    with res(2) [of j] show ?thesis by auto
  qed
  have "0 \<le> (\<Sum>j \<in> ?S. prevSizes ! j - wNextSizes s ! j)"
  proof (rule sum_nonneg)
    fix j assume "j \<in> ?S"
    with S have "j < length prevSizes" by blast
    from le [OF this] show "0 \<le> prevSizes ! j - wNextSizes s ! j" by simp
  qed
  with walk_applied_sum [OF w] S nz have pos: "0 < wDeltaApplied s" by simp
  show ?thesis
  proof (cases "k = ?pv")
    case True
    with lt res(1) pos pv pv_eq sign show ?thesis unfolding xs by (auto split: if_splits)
  next
    case False
    with pv pv_eq sign
    have ne: "int k \<noteq> indexOf ?ps (if delta < 0 then idAfter else idBefore)" by auto
    from False have at: "xs ! k = wNextSizes s ! k" unfolding xs by simp
    show ?thesis
    proof (cases "k \<in> ?S")
      case True
      with ne at le [OF k] show ?thesis by simp
    next
      case notin: False
      with S k have "k \<notin> ?R" by blast
      with res(2) [of k] have "wNextSizes s ! k = prevSizes ! k" by blast
      with ne notin at show ?thesis by simp
    qed
  qed
qed

text \<open>
  For an event that is not a keyboard event, the loop ends with \<open>deltaApplied = 0\<close>, and
  the previous sizes are returned, exactly when no panel on the shrink side can shrink.
\<close>

lemma adjustByDelta_infeasible_without_keyboard:
  assumes run: "adjustByDelta precision event panels idBefore idAfter delta prevSizes memo
                  = Inr (r, memo')"
    and nz: "delta \<noteq> 0"
    and g: "growPivot event (panelsMapToSortedArray panels) idBefore idAfter delta prevSizes memo
              = Inr (Some (delta1, memo1))"
    and found: "0 \<le> indexOf (panelsMapToSortedArray panels) idBefore"
    and sides: "indexOf (panelsMapToSortedArray panels) idBefore
                  < indexOf (panelsMapToSortedArray panels) idAfter"
    and sizes: "list_all2 sizeWithinBounds (panelsMapToSortedArray panels) prevSizes"
    and bounds: "list_all validBounds (panelsMapToSortedArray panels)"
    and pointer: "\<not> isKeyboardEvent event"
  shows "(r = PrevSizes) =
         (\<forall>k \<in> (if delta < 0
                  then {..nat (indexOf (panelsMapToSortedArray panels) idBefore)}
                  else {nat (indexOf (panelsMapToSortedArray panels) idAfter)
                          ..< length (panelsMapToSortedArray panels)}).
            shrunk event (panelsMapToSortedArray panels) prevSizes delta1 k = prevSizes ! k)"
proof -
  let ?ps = "panelsMapToSortedArray panels"
  let ?iB = "indexOf ?ps idBefore"
  let ?iA = "indexOf ?ps idAfter"
  let ?S = "if delta < 0 then {..nat ?iB} else {nat ?iA ..< length ?ps}"
  let ?i1 = "indexOf ?ps (if delta1 < 0 then idBefore else idAfter)"
  let ?R = "remaining delta1 ?i1 (length ?ps)"
  let ?w = "walk precision event ?ps prevSizes delta1 ?i1
              \<lparr>wDeltaApplied = 0, wNextSizes = prevSizes, wSizeBeforeCollapse = memo1\<rparr>"
  from run nz g obtain s where w: "?w = Inr s"
    by (cases ?w) (simp_all add: adjustByDelta_def Let_def)
  from run nz g w have r: "(r = PrevSizes) = (wDeltaApplied s = 0)"
    by (auto simp: adjustByDelta_def Let_def split: if_splits sum.splits)
  note sign = growPivot_sign [OF g sizes bounds]
  from sizes have len: "length prevSizes = length ?ps"
    by (simp add: list_all2_lengthD)
  have iA: "?iA < int (length ?ps)"
    using findIndex_bounds [of "\<lambda>panel. panelId panel = idAfter" ?ps] by simp
  have R: "?R = ?S"
    using found sides iA sign len by (auto simp: remaining_def)
  then have S: "?R \<inter> {..<length prevSizes} = ?S"
    using found sides iA len by auto
  have inS: "k < length ?ps" if "k \<in> ?S" for k
    using that S len by auto
  note res = walk_from_prevSizes [OF w]
  have le: "wNextSizes s ! k \<le> prevSizes ! k" if "k \<in> ?S" for k
  proof -
    from inS [OF that] bounds have "validBounds (?ps ! k)" by (simp add: list_all_length)
    moreover from inS [OF that] sizes have "sizeWithinBounds (?ps ! k) (prevSizes ! k)"
      by (simp add: list_all2_nthD)
    ultimately have "shrunk event ?ps prevSizes delta1 k \<le> prevSizes ! k"
      unfolding shrunk_def using pointer by (rule safeResizePanel_shrink)
    with res(2) [of k] show ?thesis by auto
  qed
  have fin: "finite ?S" by simp
  have "(wDeltaApplied s = 0) = (\<forall>k \<in> ?S. prevSizes ! k - wNextSizes s ! k = 0)"
    unfolding walk_applied_sum [OF w] S
    by (rule sum_nonneg_eq_0_iff [OF fin]) (simp add: le)
  also have "\<dots> = (\<forall>k \<in> ?S. shrunk event ?ps prevSizes delta1 k = prevSizes ! k)"
  proof
    assume same: "\<forall>k \<in> ?S. prevSizes ! k - wNextSizes s ! k = 0"
    have "\<forall>k \<in> ?R. k < length ?ps \<longrightarrow> shrunk event ?ps prevSizes delta1 k = prevSizes ! k"
    proof (rule walk_untouched_means_unchangeable [OF w])
      show "length (wNextSizes \<lparr>wDeltaApplied = 0, wNextSizes = prevSizes,
                      wSizeBeforeCollapse = memo1\<rparr>) = length prevSizes" by simp
      show "\<forall>k \<in> ?R. wNextSizes \<lparr>wDeltaApplied = 0, wNextSizes = prevSizes,
                      wSizeBeforeCollapse = memo1\<rparr> ! k = prevSizes ! k" by simp
      show "\<forall>k \<in> ?R. wNextSizes s ! k = prevSizes ! k"
        using same unfolding R by simp
    qed
    with inS show "\<forall>k \<in> ?S. shrunk event ?ps prevSizes delta1 k = prevSizes ! k"
      unfolding R by blast
  next
    assume fixed: "\<forall>k \<in> ?S. shrunk event ?ps prevSizes delta1 k = prevSizes ! k"
    show "\<forall>k \<in> ?S. prevSizes ! k - wNextSizes s ! k = 0"
    proof
      fix k assume "k \<in> ?S"
      with fixed res(2) [of k] show "prevSizes ! k - wNextSizes s ! k = 0" by auto
    qed
  qed
  finally show ?thesis using r by simp
qed

lemma growPivot_None:
  "growPivot ev ps idB idA d prev m = Inr None \<longleftrightarrow>
     (\<exists>panel prevSize.
        elemAt ps (indexOf ps (if d < 0 then idA else idB)) = Some panel
        \<and> elemAt prev (indexOf ps (if d < 0 then idA else idB)) = Some prevSize
        \<and> safeResizePanel panel \<bar>d\<bar> prevSize ev = prevSize)"
  by (auto simp: growPivot_def Let_def split: option.splits)

section \<open>The notification loop\<close>

lemma callbacksAt_expected:
  assumes "i < length ps"
  shows "callbacksAt ps prev nxt i
         = Inr (expectedCalls (ps ! i) i (elemAt prev (int i)) (nxt ! i))"
  using assms by (auto simp: callbacksAt_def expectedCalls_def Let_def elemAt_def)

lemma forEachIndex_Inr:
  "(\<forall>i \<in> set js. f i = Inr (g i)) \<Longrightarrow> forEachIndex f js = Inr (concat (map g js))"
  by (induction js) simp_all

lemma expectedCalls_index:
  "c \<in> set (expectedCalls panel i p n) \<Longrightarrow> callIndex c = i"
  by (auto simp: expectedCalls_def split: if_splits)

lemma filter_concat_by_index:
  assumes "\<forall>j. \<forall>c \<in> set (g j). callIndex c = j" and "distinct js"
  shows "filter (\<lambda>c. callIndex c = i) (concat (map g js)) = (if i \<in> set js then g i else [])"
  using assms(2)
proof (induction js)
  case Nil
  then show ?case by simp
next
  case (Cons j js)
  have here: "filter (\<lambda>c. callIndex c = i) (g j) = (if j = i then g j else [])"
    using assms(1) by (auto simp: filter_empty_conv filter_id_conv)
  from Cons show ?case by (auto simp: here)
qed

section \<open>Exact and rounded arithmetic\<close>

text \<open>Without rounding, the definitions on doubles are the exact ones.\<close>

lemma safeResizePanelFl_exact: "safeResizePanelFl (\<lambda>x. x) = safeResizePanel"
  by (simp add: fun_eq_iff safeResizePanelFl_def safeResizePanel_def)

lemma walkStepFl_exact: "walkStepFl (\<lambda>x. x) = walkStep"
  by (simp add: fun_eq_iff walkStepFl_def walkStep_def safeResizePanelFl_exact
           cong: option.case_cong)

lemma walkFl_exact:
  "walkFl (\<lambda>x. x) precision event panelsArray prevSizes delta index s
   = walk precision event panelsArray prevSizes delta index s"
proof (induction precision event panelsArray prevSizes delta index s rule: walk.induct)
  case (1 precision event panelsArray prevSizes delta index s)
  show ?case
    by (subst walkFl.simps, subst walk.simps)
       (auto simp: walkStepFl_exact "1.IH" split: sum.splits)
qed

lemma adjustByDeltaFl_exact:
  "adjustByDeltaFl (\<lambda>x. x) precision event panels idBefore idAfter delta prevSizes memo
   = adjustByDelta precision event panels idBefore idAfter delta prevSizes memo"
proof -
  have g: "growPivotFl (\<lambda>x. x) = growPivot"
    by (simp add: fun_eq_iff growPivotFl_def growPivot_def safeResizePanelFl_exact Let_def
             cong: option.case_cong)
  have c: "commitPivotFl (\<lambda>x. x) = commitPivot"
    by (simp add: fun_eq_iff commitPivotFl_def commitPivot_def Let_def cong: option.case_cong)
  show ?thesis
    by (auto simp: adjustByDeltaFl_def adjustByDelta_def g c walkFl_exact Let_def
             split: sum.splits option.splits)
qed



section \<open>Properties of the single-panel resize\<close>

text \<open>
  C6. A collapsible panel at size 0 that receives a growth delta from a pointer (not a
  keyboard) event stays at exactly 0 while the unsafe next size is below its minimum
  size; with a keyboard event the result is the standard clamping to
  \<open>[minSize, maxSize]\<close>, hence at least the minimum size.
\<close>

theorem safeResizePanel_hysteresis:
  assumes "collapsible panel"
  shows "(\<not> isKeyboardEvent event \<and> 0 + delta < minSize panel
            \<longrightarrow> safeResizePanel panel delta 0 event = 0)
       \<and> (isKeyboardEvent event \<and> minSize panel \<le> maxSize panel
            \<longrightarrow> safeResizePanel panel delta 0 event
                  = min (maxSize panel) (max (minSize panel) delta)
                \<and> minSize panel \<le> safeResizePanel panel delta 0 event)"
  using assms by (simp add: safeResizePanel_def)

theorem safeResizePanel_hysteresis_witness:
  "collapsible (mkPanel ''b'' 1 10 100 True)
   \<and> \<not> isKeyboardEvent (Some \<lparr>eventType = ''mousemove''\<rparr>)
   \<and> 0 + 5 < minSize (mkPanel ''b'' 1 10 100 True)
   \<and> safeResizePanel (mkPanel ''b'' 1 10 100 True) 5 0 (Some \<lparr>eventType = ''mousemove''\<rparr>) = 0
   \<and> isKeyboardEvent (Some \<lparr>eventType = ''keydown''\<rparr>)
   \<and> minSize (mkPanel ''b'' 1 10 100 True) \<le> maxSize (mkPanel ''b'' 1 10 100 True)
   \<and> safeResizePanel (mkPanel ''b'' 1 10 100 True) 5 0 (Some \<lparr>eventType = ''keydown''\<rparr>) = 10"
  using safeResizePanel_hysteresis [of "mkPanel ''b'' 1 10 100 True"
          "Some \<lparr>eventType = ''mousemove''\<rparr>" 5]
        safeResizePanel_hysteresis [of "mkPanel ''b'' 1 10 100 True"
          "Some \<lparr>eventType = ''keydown''\<rparr>" 5]
  by (simp add: isKeyboardEvent_def)

section \<open>Properties of the percentage query\<close>

text \<open>
  C10. In a collection of more than one panel, \<open>getFlexGrow\<close> with an id that no panel
  has returns the string \<open>0\<close>, as it does for a panel whose size is not recorded yet; it
  raises no error.
\<close>

theorem getFlexGrow_unknown_id:
  assumes "1 < length panels"
    and "ident \<notin> panelId ` snd ` set panels"
  shows "getFlexGrow precision panels ident sizes = Inr ''0''"
proof -
  have "\<forall>panel \<in> set (panelsMapToSortedArray panels). \<not> panelId panel = ident"
    using assms(2) by (auto simp: set_panelsMapToSortedArray)
  then have "indexOf (panelsMapToSortedArray panels) ident = - 1"
    by (rule findIndex_none)
  with assms(1) show ?thesis
    by (simp add: getFlexGrow_def elemAt_neg)
qed

theorem getFlexGrow_unknown_id_witness:
  "1 < length [(''a'', mkPanel ''a'' 0 10 100 False), (''b'', mkPanel ''b'' 1 10 100 True)]
   \<and> ''c'' \<notin> panelId ` snd ` set [(''a'', mkPanel ''a'' 0 10 100 False),
                                    (''b'', mkPanel ''b'' 1 10 100 True)]
   \<and> getFlexGrow 10 [(''a'', mkPanel ''a'' 0 10 100 False), (''b'', mkPanel ''b'' 1 10 100 True)]
        ''c'' [60, 40] = Inr ''0''"
proof -
  let ?panels = "[(''a'', mkPanel ''a'' 0 10 100 False), (''b'', mkPanel ''b'' 1 10 100 True)]"
  have many: "1 < length ?panels" by simp
  have fresh: "''c'' \<notin> panelId ` snd ` set ?panels" by simp
  from getFlexGrow_unknown_id [OF many fresh, of 10 "[60, 40]"] many fresh
  show ?thesis by simp
qed

section \<open>Properties of delta propagation\<close>







text \<open>
  What the commit does: the returned array raises the size of the grow-side pivot by the
  total that the result has removed from the panels on the shrink side of the divider
  (exact arithmetic).
\<close>

lemma adjustByDelta_pivot_gain:
  assumes run: "adjustByDelta precision event panels idBefore idAfter delta prevSizes memo
                  = Inr (r, memo')"
    and found: "0 \<le> indexOf (panelsMapToSortedArray panels) idBefore"
    and sides: "indexOf (panelsMapToSortedArray panels) idBefore
                  < indexOf (panelsMapToSortedArray panels) idAfter"
    and sizes: "list_all2 sizeWithinBounds (panelsMapToSortedArray panels) prevSizes"
    and bounds: "list_all validBounds (panelsMapToSortedArray panels)"
  shows "deref prevSizes r
           ! nat (indexOf (panelsMapToSortedArray panels) (if delta < 0 then idAfter else idBefore))
         = prevSizes
             ! nat (indexOf (panelsMapToSortedArray panels) (if delta < 0 then idAfter else idBefore))
           + (\<Sum>k \<in> (if delta < 0
                       then {..nat (indexOf (panelsMapToSortedArray panels) idBefore)}
                       else {nat (indexOf (panelsMapToSortedArray panels) idAfter)
                               ..< length (panelsMapToSortedArray panels)}).
                prevSizes ! k - deref prevSizes r ! k)"
proof (cases r)
  case PrevSizes
  then show ?thesis by (simp add: deref_def)
next
  case (NextSizes xs)
  let ?ps = "panelsMapToSortedArray panels"
  let ?iB = "indexOf ?ps idBefore"
  let ?iA = "indexOf ?ps idAfter"
  let ?S = "if delta < 0 then {..nat ?iB} else {nat ?iA ..< length ?ps}"
  let ?pv = "nat (indexOf ?ps (if delta < 0 then idAfter else idBefore))"
  from run [unfolded NextSizes]
  obtain d1 m1 s where
    g: "growPivot event ?ps idBefore idAfter delta prevSizes memo = Inr (Some (d1, m1))"
    and w: "walk precision event ?ps prevSizes d1 (indexOf ?ps (if d1 < 0 then idBefore else idAfter))
          \<lparr>wDeltaApplied = 0, wNextSizes = prevSizes, wSizeBeforeCollapse = m1\<rparr> = Inr s"
    and c: "commitPivot ?ps idBefore idAfter d1 prevSizes s = Inr xs"
    by (rule adjustByDelta_NextSizes)
  note sign = growPivot_sign [OF g sizes bounds]
  from sizes have len: "length prevSizes = length ?ps"
    by (simp add: list_all2_lengthD)
  have iA: "?iA < int (length ?ps)"
    using findIndex_bounds [of "\<lambda>panel. panelId panel = idAfter" ?ps] by simp
  have S: "remaining d1 (indexOf ?ps (if d1 < 0 then idBefore else idAfter)) (length ?ps)
             \<inter> {..<length prevSizes} = ?S"
    using found sides iA sign len by (auto simp: remaining_def)
  have pv: "0 \<le> indexOf ?ps (if d1 < 0 then idAfter else idBefore)"
    and pv_eq: "nat (indexOf ?ps (if d1 < 0 then idAfter else idBefore)) = ?pv"
    and out: "?pv \<notin> ?S"
    using found sides sign by auto
  from commitPivot_Inr [OF c] pv pv_eq
  have xs: "xs = (wNextSizes s)[?pv := prevSizes ! ?pv + wDeltaApplied s]"
    and lt: "?pv < length prevSizes" by auto
  from lt walk_from_prevSizes(1) [OF w] have at_pv: "xs ! ?pv = prevSizes ! ?pv + wDeltaApplied s"
    unfolding xs by simp
  have "(\<Sum>k \<in> ?S. prevSizes ! k - xs ! k) = (\<Sum>k \<in> ?S. prevSizes ! k - wNextSizes s ! k)"
  proof (rule sum.cong [OF refl])
    fix k assume "k \<in> ?S"
    with out have "k \<noteq> ?pv" by blast
    then show "prevSizes ! k - xs ! k = prevSizes ! k - wNextSizes s ! k"
      unfolding xs by simp
  qed
  also have "\<dots> = wDeltaApplied s"
    using walk_applied_sum [OF w] S by simp
  finally show ?thesis
    using at_pv NextSizes by (simp add: deref_def)
qed

text \<open>
  What the code tests: the array that was passed in is returned (\<open>PrevSizes\<close>, not a
  copy) in exactly three cases: the delta is 0; the constrained resize of the grow-side
  pivot leaves its size unchanged; or the shrink-side loop ends with \<open>deltaApplied = 0\<close>.
\<close>

lemma adjustByDelta_prevSizes_iff:
  assumes "adjustByDelta precision event panels idBefore idAfter delta prevSizes memo
             = Inr (r, memo')"
  shows "(r = PrevSizes) =
     (delta = 0
      \<or> (\<exists>panel prevSize.
            elemAt (panelsMapToSortedArray panels)
              (indexOf (panelsMapToSortedArray panels) (if delta < 0 then idAfter else idBefore))
              = Some panel
            \<and> elemAt prevSizes
                (indexOf (panelsMapToSortedArray panels) (if delta < 0 then idAfter else idBefore))
                = Some prevSize
            \<and> safeResizePanel panel \<bar>delta\<bar> prevSize event = prevSize)
      \<or> (\<exists>delta1 memo1 s.
            growPivot event (panelsMapToSortedArray panels) idBefore idAfter delta prevSizes memo
              = Inr (Some (delta1, memo1))
            \<and> walk precision event (panelsMapToSortedArray panels) prevSizes delta1
                  (indexOf (panelsMapToSortedArray panels)
                     (if delta1 < 0 then idBefore else idAfter))
                  \<lparr>wDeltaApplied = 0, wNextSizes = prevSizes, wSizeBeforeCollapse = memo1\<rparr>
                = Inr s
            \<and> wDeltaApplied s = 0))"
proof -
  let ?ps = "panelsMapToSortedArray panels"
  let ?g = "growPivot event ?ps idBefore idAfter delta prevSizes memo"
  let ?unchanged = "\<exists>panel prevSize.
      elemAt ?ps (indexOf ?ps (if delta < 0 then idAfter else idBefore)) = Some panel
      \<and> elemAt prevSizes (indexOf ?ps (if delta < 0 then idAfter else idBefore)) = Some prevSize
      \<and> safeResizePanel panel \<bar>delta\<bar> prevSize event = prevSize"
  have unchanged: "(?g = Inr None) = ?unchanged"
    by (rule growPivot_None)
  show ?thesis
  proof (cases "delta = 0")
    case True
    with assms show ?thesis by (simp add: adjustByDelta_def)
  next
    case nz: False
    from assms nz obtain g where g: "?g = Inr g"
      by (cases ?g) (simp_all add: adjustByDelta_def Let_def)
    show ?thesis
    proof (cases g)
      case None
      with assms nz g have "r = PrevSizes" by (simp add: adjustByDelta_def Let_def)
      moreover from None g have "?g = Inr None" by simp
      ultimately show ?thesis using unchanged by blast
    next
      case (Some dm)
      obtain delta1 memo1 where dm: "dm = (delta1, memo1)" by (cases dm)
      let ?w = "walk precision event ?ps prevSizes delta1
                  (indexOf ?ps (if delta1 < 0 then idBefore else idAfter))
                  \<lparr>wDeltaApplied = 0, wNextSizes = prevSizes, wSizeBeforeCollapse = memo1\<rparr>"
      from Some dm g have gs: "?g = Inr (Some (delta1, memo1))" by simp
      then have "?g \<noteq> Inr None" by simp
      with unchanged have changed: "\<not> ?unchanged" by blast
      from assms nz gs obtain s where s: "?w = Inr s"
        by (cases ?w) (simp_all add: adjustByDelta_def Let_def)
      from assms nz gs s have "(r = PrevSizes) = (wDeltaApplied s = 0)"
        by (auto simp: adjustByDelta_def Let_def split: if_splits sum.splits)
      with nz changed gs s show ?thesis by auto
    qed
  qed
qed

section \<open>Properties of change notification\<close>

text \<open>
  C7 (amended). \<open>callPanelCallbacks\<close> makes, for each index of \<open>nextSizes\<close>, exactly the
  calls of \<open>expectedCalls\<close> for that panel and no others: nothing when the size is
  unchanged; otherwise \<open>onResize\<close> with the new size, and for a collapsible panel with a
  collapse hook \<open>onCollapse(false)\<close> exactly when the previous size is 0 or absent and
  the new one is not 0, \<open>onCollapse(true)\<close> exactly when the new size is 0 and the
  previous one is not 0, be it a nonzero size or absent.
\<close>

theorem callPanelCallbacks_contract:
  assumes "length nextSizes \<le> length panelsArray"
  shows "\<exists>trace. callPanelCallbacks panelsArray prevSizes nextSizes = Inr trace
           \<and> (\<forall>i. filter (\<lambda>c. callIndex c = i) trace
                    = (if i < length nextSizes
                       then expectedCalls (panelsArray ! i) i (elemAt prevSizes (int i))
                              (nextSizes ! i)
                       else []))"
proof -
  let ?g = "\<lambda>i. expectedCalls (panelsArray ! i) i (elemAt prevSizes (int i)) (nextSizes ! i)"
  have "\<forall>i \<in> set [0..<length nextSizes].
          callbacksAt panelsArray prevSizes nextSizes i = Inr (?g i)"
    using assms by (simp add: callbacksAt_expected)
  then have run: "callPanelCallbacks panelsArray prevSizes nextSizes
                    = Inr (concat (map ?g [0..<length nextSizes]))"
    unfolding callPanelCallbacks_def by (rule forEachIndex_Inr)
  have "\<forall>j. \<forall>c \<in> set (?g j). callIndex c = j"
    by (simp add: expectedCalls_index)
  then have "filter (\<lambda>c. callIndex c = i) (concat (map ?g [0..<length nextSizes]))
        = (if i \<in> set [0..<length nextSizes] then ?g i else [])" for i
    by (rule filter_concat_by_index) simp
  with run show ?thesis by simp
qed

theorem callPanelCallbacks_contract_witness:
  "length [30, 0 :: real]
     \<le> length [mkPanel ''a'' 0 10 100 False, mkPanel ''b'' 1 10 100 True]
   \<and> callPanelCallbacks [mkPanel ''a'' 0 10 100 False, mkPanel ''b'' 1 10 100 True]
        [30, 20] [30, 0]
       = Inr [OnResize 1 0, OnCollapse 1 True]"
proof -
  have len: "length [30, 0 :: real]
     \<le> length [mkPanel ''a'' 0 10 100 False, mkPanel ''b'' 1 10 100 True]"
    by simp
  have run: "callPanelCallbacks [mkPanel ''a'' 0 10 100 False, mkPanel ''b'' 1 10 100 True]
        [30, 20] [30, 0]
       = Inr [OnResize 1 0, OnCollapse 1 True]"
    by (simp add: callPanelCallbacks_def callbacksAt_def elemAt_def upt_rec Let_def)
  from callPanelCallbacks_contract [OF len, of "[30, 20]"] len run show ?thesis by simp
qed

text \<open>
  The claim as first stated fails on mount: with no previous size and a new size of 0,
  \<open>onCollapse(true)\<close> is called although the previous size is not a nonzero size.
\<close>

theorem callPanelCallbacks_collapse_on_mount:
  "elemAt ([] :: real list) 0 = None
   \<and> callPanelCallbacks [mkPanel ''a'' 0 10 100 True] [] [0]
       = Inr [OnResize 0 0, OnCollapse 0 True]"
  by (simp add: callPanelCallbacks_def callbacksAt_def elemAt_def Let_def)

section \<open>Where the code departs from the stated behaviour\<close>

text \<open>
  C3. The loop is to stop exactly when \<open>deltaApplied\<close> reaches the magnitude of the
  clamped delta, compared as numbers at the rounding precision, or when the shrink side is
  exhausted. The code compares the two \<open>toPrecision\<close> strings, and the signed delta
  rather than its magnitude. With a delta of -15 the loop stops after the first panel that
  changes, with 2 of 15 applied, since \<open>2.000000000\<close> is not below \<open>-15.00000000\<close>
  as a string; the panel at index 0 could have shrunk from 48 to 33.
\<close>

theorem walk_stops_before_target:
  "adjustByDelta 10 None
      [(''z'', mkPanel ''z'' 0 10 100 False), (''a'', mkPanel ''a'' 1 10 100 False),
       (''b'', mkPanel ''b'' 2 10 100 False)]
      ''a'' ''b'' (- 15) [48, 12, 40] Map.empty
     = Inr (NextSizes [48, 10, 42], Map.empty)
   \<and> walk 10 None
        [mkPanel ''z'' 0 10 100 False, mkPanel ''a'' 1 10 100 False, mkPanel ''b'' 2 10 100 False]
        [48, 12, 40] (- 15) 1
        \<lparr>wDeltaApplied = 0, wNextSizes = [48, 12, 40], wSizeBeforeCollapse = Map.empty\<rparr>
       = Inr \<lparr>wDeltaApplied = 2, wNextSizes = [48, 10, 40], wSizeBeforeCollapse = Map.empty\<rparr>
   \<and> toPrecision 10 2 = Inr ''2.000000000''
   \<and> toPrecision 10 (- 15) = Inr ''-15.00000000''
   \<and> stringGe ''2.000000000'' ''-15.00000000''
   \<and> safeResizePanel (mkPanel ''z'' 0 10 100 False) (0 - \<bar>- 15\<bar>) 48 None = 33"
  by (simp add: run_defs)

text \<open>
  With a positive delta the two strings are compared as well: \<open>2.000000000\<close> is not
  below \<open>15.00000000\<close>, and the loop stops with 2 of 15 applied.
\<close>

lemma walk_compares_strings:
  "adjustByDelta 10 None
      [(''a'', mkPanel ''a'' 0 10 100 False), (''b'', mkPanel ''b'' 1 10 100 False),
       (''c'', mkPanel ''c'' 2 10 100 False)]
      ''a'' ''b'' 15 [40, 12, 48] Map.empty
     = Inr (NextSizes [42, 10, 48], Map.empty)
   \<and> stringGe ''2.000000000'' ''15.00000000''
   \<and> safeResizePanel (mkPanel ''c'' 2 10 100 False) (0 - \<bar>15\<bar>) 48 None = 33"
  by (simp add: run_defs)

text \<open>
  C4. Each panel of the shrink side is to be asked for the amount still missing. The code
  asks every panel for the whole \<open>|delta|\<close>: with a delta of 2 and 1 already applied, the
  panel at index 2 gives 2, so 3 is removed in all and the pivot, whose maximum is 47,
  is committed at 48.
\<close>

theorem walk_asks_full_delta:
  "adjustByDelta 10 None
      [(''a'', mkPanel ''a'' 0 10 47 False), (''b'', mkPanel ''b'' 1 10 100 False),
       (''c'', mkPanel ''c'' 2 10 100 False)]
      ''a'' ''b'' 2 [45, 11, 44] Map.empty
     = Inr (NextSizes [48, 10, 42], Map.empty)
   \<and> walkStep 10 None
        [mkPanel ''a'' 0 10 47 False, mkPanel ''b'' 1 10 100 False, mkPanel ''c'' 2 10 100 False]
        [45, 11, 44] 2 2
        \<lparr>wDeltaApplied = 1, wNextSizes = [45, 10, 44], wSizeBeforeCollapse = Map.empty\<rparr>
       = Inr (True,
              \<lparr>wDeltaApplied = 3, wNextSizes = [45, 10, 42], wSizeBeforeCollapse = Map.empty\<rparr>)"
  by (simp add: run_defs)

text \<open>
  C9. Only the grow-side pivot is to grow, and only shrink-side panels are to shrink. With
  a keyboard event, a collapsed panel on the shrink side that is asked to shrink is
  clamped up to its minimum size: it grows from 0 to 10, and the pivot, which takes the
  negative \<open>deltaApplied\<close>, shrinks from 50 to 45.
\<close>

theorem keyboard_shrink_expands_collapsed_panel:
  "adjustByDelta 10 (Some \<lparr>eventType = ''keydown''\<rparr>)
      [(''a'', mkPanel ''a'' 0 10 100 False), (''b'', mkPanel ''b'' 1 10 100 True),
       (''c'', mkPanel ''c'' 2 10 100 False)]
      ''a'' ''b'' 5 [50, 0, 50] Map.empty
     = Inr (NextSizes [45, 10, 45], Map.empty)
   \<and> list_all2 sizeWithinBounds
        (panelsMapToSortedArray
           [(''a'', mkPanel ''a'' 0 10 100 False), (''b'', mkPanel ''b'' 1 10 100 True),
            (''c'', mkPanel ''c'' 2 10 100 False)])
        [50, 0, 50]"
  by (simp add: run_defs sizeWithinBounds_def)

text \<open>
  C5. When the shrink side can supply only \<open>k < |delta|\<close>, the pivot is to grow by exactly
  \<open>k\<close>. Here the two panels before the divider can give 2 each, 4 in all, for a delta of
  -15; the loop stops after the first of them, for the reason given under C3, and the
  pivot grows by 2.
\<close>

theorem walk_leaves_supply_unused:
  "adjustByDelta 10 None
      [(''a'', mkPanel ''a'' 0 10 100 False), (''b'', mkPanel ''b'' 1 10 100 False),
       (''c'', mkPanel ''c'' 2 10 100 False)]
      ''b'' ''c'' (- 15) [12, 12, 76] Map.empty
     = Inr (NextSizes [12, 10, 78], Map.empty)
   \<and> (12 - shrunk None
              [mkPanel ''a'' 0 10 100 False, mkPanel ''b'' 1 10 100 False,
               mkPanel ''c'' 2 10 100 False]
              [12, 12, 76] (- 15) 0)
     + (12 - shrunk None
              [mkPanel ''a'' 0 10 100 False, mkPanel ''b'' 1 10 100 False,
               mkPanel ''c'' 2 10 100 False]
              [12, 12, 76] (- 15) 1)
     = 4
   \<and> (4 :: real) < \<bar>- 15\<bar>
   \<and> [12, 10, 78 :: real] ! 2 - [12, 12, 76] ! 2 = 2"
  by (simp add: run_defs shrunk_def)

text \<open>
  C8. The previous sizes are to be returned in exactly three cases, the third being that
  no panel of the shrink side changed. With a keyboard event the delta is 10, the pivot
  can grow from 50 to 60, and the loop changes both shrink-side panels, the collapsed one
  from 0 to 10 (the missed case of C9) and the next from 50 to 40; the two changes cancel
  in \<open>deltaApplied\<close> and the previous sizes are returned.
\<close>

theorem keyboard_changes_cancel_to_prevSizes:
  "adjustByDelta 10 (Some \<lparr>eventType = ''keydown''\<rparr>)
      [(''a'', mkPanel ''a'' 0 10 100 False), (''b'', mkPanel ''b'' 1 10 100 True),
       (''c'', mkPanel ''c'' 2 10 100 False)]
      ''a'' ''b'' 10 [50, 0, 50] Map.empty
     = Inr (PrevSizes, Map.empty)
   \<and> growPivot (Some \<lparr>eventType = ''keydown''\<rparr>)
        [mkPanel ''a'' 0 10 100 False, mkPanel ''b'' 1 10 100 True, mkPanel ''c'' 2 10 100 False]
        ''a'' ''b'' 10 [50, 0, 50] Map.empty
       = Inr (Some (10, Map.empty))
   \<and> walk 10 (Some \<lparr>eventType = ''keydown''\<rparr>)
        [mkPanel ''a'' 0 10 100 False, mkPanel ''b'' 1 10 100 True, mkPanel ''c'' 2 10 100 False]
        [50, 0, 50] 10 1
        \<lparr>wDeltaApplied = 0, wNextSizes = [50, 0, 50], wSizeBeforeCollapse = Map.empty\<rparr>
       = Inr \<lparr>wDeltaApplied = 0, wNextSizes = [50, 10, 40], wSizeBeforeCollapse = Map.empty\<rparr>"
  by (simp add: run_defs)

end
